theory Spec2Isabelle
  imports Main "HOL-Library.Word" "HOL-Library.Multiset"
begin

unbundle bit_operations_syntax

section \<open>Machine types and the byte buffer\<close>

text \<open>
  The Go types of \<^verbatim>\<open>packet.go\<close>: \<^verbatim>\<open>byte\<close>, \<^verbatim>\<open>uint16\<close>, \<^verbatim>\<open>uint32\<close> and \<^verbatim>\<open>int16\<close> are
  words of their width; arithmetic wraps, \<open>\<le>\<close> and \<open><\<close> compare unsigned, and the signed
  comparison of an \<^verbatim>\<open>int16\<close> is \<open><s\<close>.

  A \<^verbatim>\<open>*bytes.Buffer\<close> is modelled by the list of its unread bytes: writing appends at the
  end, reading consumes from the front. A failed read returns the error only: what is
  left of the buffer and of the receiver after a failure is not modelled.
\<close>

type_synonym byte = "8 word"
type_synonym uint16 = "16 word"
type_synonym uint32 = "32 word"
type_synonym int16 = "16 word"
type_synonym buffer = "byte list"

text \<open>
  Errors: \<^verbatim>\<open>io.EOF\<close>, \<^verbatim>\<open>io.ErrUnexpectedEOF\<close>, the error of the 24-bit reader, and the
  two shapes of \<^verbatim>\<open>fmt.Errorf\<close> in the source: a message wrapping an error through
  \<^verbatim>\<open>%v\<close>, and a message alone.
\<close>

datatype error =
    EOF
  | ErrUnexpectedEOF
  | TruncatedInput
  | Errorf string error
  | Errorf0 string

text \<open>\<^verbatim>\<open>if err != nil { return fmt.Errorf(msg, err) }\<close>\<close>

definition wrap :: "string \<Rightarrow> error + 'a \<Rightarrow> error + 'a" where
  "wrap msg r = (case r of Inl err \<Rightarrow> Inl (Errorf msg err) | Inr x \<Rightarrow> Inr x)"

subsection \<open>\<^verbatim>\<open>bytes.Buffer\<close>\<close>

text \<open>
  \<^verbatim>\<open>WriteByte\<close> and \<^verbatim>\<open>Write\<close> append and always return a nil error.
  \<^verbatim>\<open>ReadByte\<close> returns \<^verbatim>\<open>io.EOF\<close> on an empty buffer.
  \<^verbatim>\<open>Next(n)\<close> skips \<open>n\<close> bytes, or all of them when fewer remain, and cannot fail.
  \<^verbatim>\<open>Read(p)\<close> copies \<open>min (len p) (len b)\<close> bytes into the front of \<open>p\<close> and returns that
  number with a nil error; only on an empty buffer (and a non-empty \<open>p\<close>) it returns
  \<^verbatim>\<open>io.EOF\<close>. The rest of \<open>p\<close> keeps what it held.
\<close>

definition WriteByte :: "buffer \<Rightarrow> byte \<Rightarrow> error + buffer" where
  "WriteByte b c = Inr (b @ [c])"

definition Write :: "buffer \<Rightarrow> byte list \<Rightarrow> error + buffer" where
  "Write b p = Inr (b @ p)"

definition ReadByte :: "buffer \<Rightarrow> error + (byte \<times> buffer)" where
  "ReadByte b = (case b of [] \<Rightarrow> Inl EOF | c # b' \<Rightarrow> Inr (c, b'))"

definition Next :: "nat \<Rightarrow> buffer \<Rightarrow> byte list \<times> buffer" where
  "Next n b = (take n b, drop n b)"

definition Read :: "buffer \<Rightarrow> byte list \<Rightarrow> error + (nat \<times> byte list \<times> buffer)" where
  "Read b p =
     (if b = [] then (if length p = 0 then Inr (0, p, b) else Inl EOF)
      else let n = min (length p) (length b)
           in Inr (n, take n b @ drop n p, drop n b))"

subsection \<open>\<^verbatim>\<open>encoding/binary\<close>, big endian\<close>

text \<open>
  \<^verbatim>\<open>binary.Read\<close> of a fixed-size value goes through \<^verbatim>\<open>io.ReadFull\<close>: with too few bytes
  it fails with \<^verbatim>\<open>io.EOF\<close> when nothing was left and with \<^verbatim>\<open>io.ErrUnexpectedEOF\<close> when
  some bytes, but not enough, were.
\<close>

definition ReadFull :: "buffer \<Rightarrow> nat \<Rightarrow> error + (byte list \<times> buffer)" where
  "ReadFull b n =
     (if n \<le> length b then Inr (take n b, drop n b)
      else if b = [] then Inl EOF
      else Inl ErrUnexpectedEOF)"

definition PutUint16 :: "uint16 \<Rightarrow> byte list" where
  "PutUint16 v = [ucast (drop_bit 8 v), ucast v]"

definition PutUint32 :: "uint32 \<Rightarrow> byte list" where
  "PutUint32 v = [ucast (drop_bit 24 v), ucast (drop_bit 16 v), ucast (drop_bit 8 v), ucast v]"

definition Uint16 :: "byte list \<Rightarrow> uint16" where
  "Uint16 bs = ucast (bs ! 1) OR push_bit 8 (ucast (bs ! 0))"

definition Uint32 :: "byte list \<Rightarrow> uint32" where
  "Uint32 bs = ucast (bs ! 3) OR push_bit 8 (ucast (bs ! 2))
               OR push_bit 16 (ucast (bs ! 1)) OR push_bit 24 (ucast (bs ! 0))"

definition binary_Write_uint16 :: "buffer \<Rightarrow> uint16 \<Rightarrow> error + buffer" where
  "binary_Write_uint16 b v = Write b (PutUint16 v)"

definition binary_Write_uint32 :: "buffer \<Rightarrow> uint32 \<Rightarrow> error + buffer" where
  "binary_Write_uint32 b v = Write b (PutUint32 v)"

definition binary_Read_uint16 :: "buffer \<Rightarrow> error + (uint16 \<times> buffer)" where
  "binary_Read_uint16 b =
     (case ReadFull b 2 of Inl err \<Rightarrow> Inl err | Inr (bs, b') \<Rightarrow> Inr (Uint16 bs, b'))"

definition binary_Read_uint32 :: "buffer \<Rightarrow> error + (uint32 \<times> buffer)" where
  "binary_Read_uint32 b =
     (case ReadFull b 4 of Inl err \<Rightarrow> Inl err | Inr (bs, b') \<Rightarrow> Inr (Uint32 bs, b'))"

text \<open>An \<^verbatim>\<open>int16\<close> travels as the \<^verbatim>\<open>uint16\<close> of the same bits.\<close>

definition binary_Write_int16 :: "buffer \<Rightarrow> int16 \<Rightarrow> error + buffer" where
  "binary_Write_int16 b v = Write b (PutUint16 v)"

definition binary_Read_int16 :: "buffer \<Rightarrow> error + (int16 \<times> buffer)" where
  "binary_Read_int16 b =
     (case ReadFull b 2 of Inl err \<Rightarrow> Inl err | Inr (bs, b') \<Rightarrow> Inr (Uint16 bs, b'))"

subsection \<open>The 24-bit integer codec\<close>

text \<open>
  Modelled from the spec: \<^verbatim>\<open>writeUint24\<close> is called by \<^verbatim>\<open>packet.go\<close> but defined
  elsewhere in the repository. The spec (4.1): it writes the low 24 bits of the value as
  3 bytes, in big-endian order, and truncates the bits above.
\<close>

definition writeUint24 :: "buffer \<Rightarrow> uint32 \<Rightarrow> error + buffer" where
  "writeUint24 b v = Write b [ucast (drop_bit 16 v), ucast (drop_bit 8 v), ucast v]"

text \<open>
  Modelled from the spec: \<^verbatim>\<open>readUint24\<close> is called by \<^verbatim>\<open>packet.go\<close> but defined
  elsewhere in the repository. The spec (4.1): it reads 3 bytes big-endian and returns
  them as a 32-bit unsigned value with the top 8 bits zero; it fails with
  \<^verbatim>\<open>TruncatedInput\<close> if fewer than 3 bytes remain.
\<close>

definition readUint24 :: "buffer \<Rightarrow> error + (uint32 \<times> buffer)" where
  "readUint24 b =
     (case b of
        b0 # b1 # b2 # b' \<Rightarrow>
          Inr (push_bit 16 (ucast b0) OR push_bit 8 (ucast b1) OR ucast b2, b')
      | _ \<Rightarrow> Inl TruncatedInput)"

section \<open>Encapsulated packets\<close>

abbreviation reliabilityUnreliable :: byte where "reliabilityUnreliable \<equiv> 0"
abbreviation reliabilityUnreliableSequenced :: byte where "reliabilityUnreliableSequenced \<equiv> 1"
abbreviation reliabilityReliable :: byte where "reliabilityReliable \<equiv> 2"
abbreviation reliabilityReliableOrdered :: byte where "reliabilityReliableOrdered \<equiv> 3"
abbreviation reliabilityReliableSequenced :: byte where "reliabilityReliableSequenced \<equiv> 4"
abbreviation reliabilityUnreliableWithAck :: byte where "reliabilityUnreliableWithAck \<equiv> 5"
abbreviation reliabilityReliableWithAck :: byte where "reliabilityReliableWithAck \<equiv> 6"
abbreviation reliabilityReliableOrderedWithAck :: byte where "reliabilityReliableOrderedWithAck \<equiv> 7"

abbreviation splitFlag :: byte where "splitFlag \<equiv> 0x10"

record packet =
  reliability :: byte
  content :: "byte list"
  messageIndex :: uint32
  sequenceIndex :: uint32
  orderIndex :: uint32
  split :: bool
  splitCount :: uint32
  splitIndex :: uint32
  splitID :: uint16

text \<open>The three classifiers: a \<^verbatim>\<open>switch\<close> on the tag, false on every tag not listed.\<close>

definition reliable :: "packet \<Rightarrow> bool" where
  "reliable p =
     (if reliability p = reliabilityReliable
         \<or> reliability p = reliabilityReliableOrdered
         \<or> reliability p = reliabilityReliableSequenced
         \<or> reliability p = reliabilityReliableWithAck
         \<or> reliability p = reliabilityReliableOrderedWithAck
      then True else False)"

definition sequencedOrOrdered :: "packet \<Rightarrow> bool" where
  "sequencedOrOrdered p =
     (if reliability p = reliabilityUnreliableSequenced
         \<or> reliability p = reliabilityReliableOrdered
         \<or> reliability p = reliabilityReliableSequenced
         \<or> reliability p = reliabilityReliableOrderedWithAck
      then True else False)"

definition sequenced :: "packet \<Rightarrow> bool" where
  "sequenced p =
     (if reliability p = reliabilityUnreliableSequenced
         \<or> reliability p = reliabilityReliableSequenced
      then True else False)"

text \<open>
  \<^verbatim>\<open>packet.write\<close>. The header byte is \<^verbatim>\<open>reliability << 5\<close> in 8 bits; the length field is
  \<^verbatim>\<open>uint16(len(content)) << 3\<close> in 16 bits. The error of the order channel byte is
  discarded, as in the source.
\<close>

definition packet_write :: "packet \<Rightarrow> buffer \<Rightarrow> error + buffer" where
  "packet_write p b =
     (let header = push_bit 5 (reliability p);
          header = (if split p then header OR splitFlag else header)
      in
      (case wrap ''error writing packet header: %v'' (WriteByte b header) of
        Inl err \<Rightarrow> Inl err | Inr b \<Rightarrow>
      (case wrap ''error writing packet content length: %v''
             (binary_Write_uint16 b (push_bit 3 (word_of_nat (length (content p))))) of
        Inl err \<Rightarrow> Inl err | Inr b \<Rightarrow>
      (case (if reliable p
             then wrap ''error writing packet message index: %v''
                    (writeUint24 b (messageIndex p))
             else Inr b) of
        Inl err \<Rightarrow> Inl err | Inr b \<Rightarrow>
      (case (if sequenced p
             then wrap ''error writing packet sequence index: %v''
                    (writeUint24 b (sequenceIndex p))
             else Inr b) of
        Inl err \<Rightarrow> Inl err | Inr b \<Rightarrow>
      (case (if sequencedOrOrdered p
             then (case wrap ''error writing packet order index: %v''
                          (writeUint24 b (orderIndex p)) of
                     Inl err \<Rightarrow> Inl err
                   | Inr b \<Rightarrow> (case WriteByte b 0 of Inl _ \<Rightarrow> Inr b | Inr b' \<Rightarrow> Inr b'))
             else Inr b) of
        Inl err \<Rightarrow> Inl err | Inr b \<Rightarrow>
      (case (if split p
             then (case wrap ''error writing packet split count: %v''
                          (binary_Write_uint32 b (splitCount p)) of
                     Inl err \<Rightarrow> Inl err | Inr b \<Rightarrow>
                  (case wrap ''error writing packet split ID: %v''
                          (binary_Write_uint16 b (splitID p)) of
                     Inl err \<Rightarrow> Inl err | Inr b \<Rightarrow>
                   wrap ''error writing packet split index: %v''
                          (binary_Write_uint32 b (splitIndex p))))
             else Inr b) of
        Inl err \<Rightarrow> Inl err | Inr b \<Rightarrow>
      wrap ''error writing packet content: %v'' (Write b (content p)))))))))"

text \<open>
  \<^verbatim>\<open>packet.read\<close>. Fields are assigned as they are read; a field the tag does not carry
  keeps the value the receiver had. \<^verbatim>\<open>make([]byte, packetLength)\<close> is a zero-filled
  slice, which \<^verbatim>\<open>b.Read\<close> then fills from the front. The three optional sections of
  the header are read by \<open>read_indices\<close> and \<open>read_split\<close>.
\<close>

definition read_indices :: "packet \<Rightarrow> buffer \<Rightarrow> error + (packet \<times> buffer)" where
  "read_indices p b =
     (case (if reliable p
            then (case wrap ''error reading packet message index: %v'' (readUint24 b) of
                    Inl err \<Rightarrow> Inl err | Inr (v, b) \<Rightarrow> Inr (p\<lparr>messageIndex := v\<rparr>, b))
            else Inr (p, b)) of
        Inl err \<Rightarrow> Inl err | Inr (p, b) \<Rightarrow>
     (case (if sequenced p
            then (case wrap ''error reading packet sequence index: %v'' (readUint24 b) of
                    Inl err \<Rightarrow> Inl err | Inr (v, b) \<Rightarrow> Inr (p\<lparr>sequenceIndex := v\<rparr>, b))
            else Inr (p, b)) of
        Inl err \<Rightarrow> Inl err | Inr (p, b) \<Rightarrow>
     (if sequencedOrOrdered p
      then (case wrap ''error reading packet order index: %v'' (readUint24 b) of
              Inl err \<Rightarrow> Inl err
            | Inr (v, b) \<Rightarrow> Inr (p\<lparr>orderIndex := v\<rparr>, snd (Next 1 b)))
      else Inr (p, b))))"

definition read_split :: "packet \<Rightarrow> buffer \<Rightarrow> error + (packet \<times> buffer)" where
  "read_split p b =
     (if split p
      then (case wrap ''error reading packet split count: %v'' (binary_Read_uint32 b) of
              Inl err \<Rightarrow> Inl err | Inr (v, b) \<Rightarrow>
           (case wrap ''error reading packet split ID: %v''
                   (binary_Read_uint16 b) of
              Inl err \<Rightarrow> Inl err | Inr (w, b) \<Rightarrow>
           (case wrap ''error reading packet split index: %v''
                   (binary_Read_uint32 b) of
              Inl err \<Rightarrow> Inl err | Inr (x, b) \<Rightarrow>
            Inr (p\<lparr>splitCount := v, splitID := w, splitIndex := x\<rparr>, b))))
      else Inr (p, b))"

definition packet_read :: "packet \<Rightarrow> buffer \<Rightarrow> error + (packet \<times> buffer)" where
  "packet_read p b =
     (case wrap ''error reading packet header: %v'' (ReadByte b) of
        Inl err \<Rightarrow> Inl err | Inr (header, b) \<Rightarrow>
     (let p = p\<lparr>split := (header AND splitFlag) \<noteq> 0,
                reliability := drop_bit 5 (header AND 224)\<rparr>
      in
     (case wrap ''error reading packet length: %v'' (binary_Read_uint16 b) of
        Inl err \<Rightarrow> Inl err | Inr (packetLength, b) \<Rightarrow>
     (let packetLength = drop_bit 3 packetLength
      in
     (if packetLength = 0 then Inl (Errorf0 ''invalid packet length: cannot be 0'')
      else
     (case read_indices p b of
        Inl err \<Rightarrow> Inl err | Inr (p, b) \<Rightarrow>
     (case read_split p b of
        Inl err \<Rightarrow> Inl err | Inr (p, b) \<Rightarrow>
     (case wrap ''error reading packet content: %v''
             (Read b (replicate (unat packetLength) 0)) of
        Inl err \<Rightarrow> Inl err | Inr (n, dst, b) \<Rightarrow> Inr (p\<lparr>content := dst\<rparr>, b)))))))))"

text \<open>The zero value of \<^verbatim>\<open>packet\<close>: what a fresh receiver holds.\<close>

definition zero_packet :: packet where
  "zero_packet = \<lparr>reliability = 0, content = [], messageIndex = 0, sequenceIndex = 0,
     orderIndex = 0, split = False, splitCount = 0, splitIndex = 0, splitID = 0\<rparr>"

text \<open>
  Two fields agree where the tag and the split flag of the original say the field is on
  the wire; the other fields are not compared.
\<close>

definition relevant_fields_equal :: "packet \<Rightarrow> packet \<Rightarrow> bool" where
  "relevant_fields_equal p q =
     (reliability q = reliability p \<and> split q = split p \<and> content q = content p
      \<and> (if reliable p then messageIndex q = messageIndex p else True)
      \<and> (if sequenced p then sequenceIndex q = sequenceIndex p else True)
      \<and> (if sequencedOrOrdered p then orderIndex q = orderIndex p else True)
      \<and> (if split p
          then splitCount q = splitCount p \<and> splitID q = splitID p
               \<and> splitIndex q = splitIndex p
          else True))"

text \<open>The bytes of a packet on the wire, field by field, for stating what was written.\<close>

definition uint24_bytes :: "uint32 \<Rightarrow> byte list" where
  "uint24_bytes v = [ucast (drop_bit 16 v), ucast (drop_bit 8 v), ucast v]"

definition header_byte :: "packet \<Rightarrow> byte" where
  "header_byte p =
     (if split p then push_bit 5 (reliability p) OR splitFlag else push_bit 5 (reliability p))"

definition packet_layout :: "packet \<Rightarrow> byte list" where
  "packet_layout p =
     header_byte p # PutUint16 (push_bit 3 (word_of_nat (length (content p))))
     @ (if reliable p then uint24_bytes (messageIndex p) else [])
     @ (if sequenced p then uint24_bytes (sequenceIndex p) else [])
     @ (if sequencedOrOrdered p then uint24_bytes (orderIndex p) @ [0] else [])
     @ (if split p
        then PutUint32 (splitCount p) @ PutUint16 (splitID p) @ PutUint32 (splitIndex p)
        else [])
     @ content p"

section \<open>Acknowledgements\<close>

abbreviation PacketRange :: byte where "PacketRange \<equiv> 0"
abbreviation PacketSingle :: byte where "PacketSingle \<equiv> 1"

record acknowledgement =
  packets :: "uint32 list"

text \<open>
  The loop of \<^verbatim>\<open>acknowledgement.write\<close> over the sorted slice, with its index. Its
  state is \<^verbatim>\<open>firstPacketInRange\<close>, \<^verbatim>\<open>lastPacketInRange\<close>, the \<^verbatim>\<open>int16\<close>
  \<^verbatim>\<open>recordCount\<close>, which wraps, and the local buffer of records.
\<close>

fun ack_write_loop ::
  "nat \<Rightarrow> uint32 list \<Rightarrow> uint32 \<Rightarrow> uint32 \<Rightarrow> int16 \<Rightarrow> buffer
   \<Rightarrow> error + (uint32 \<times> uint32 \<times> int16 \<times> buffer)" where
  "ack_write_loop index [] firstPacketInRange lastPacketInRange recordCount buffer =
     Inr (firstPacketInRange, lastPacketInRange, recordCount, buffer)"
| "ack_write_loop index (packet # rest) firstPacketInRange lastPacketInRange recordCount buffer =
     (if index = 0
      then ack_write_loop (index + 1) rest packet packet recordCount buffer
      else if packet = lastPacketInRange + 1
      then ack_write_loop (index + 1) rest firstPacketInRange packet recordCount buffer
      else if firstPacketInRange = lastPacketInRange
      then (case WriteByte buffer PacketSingle of
              Inl err \<Rightarrow> Inl err | Inr buffer \<Rightarrow>
           (case writeUint24 buffer firstPacketInRange of
              Inl err \<Rightarrow> Inl err | Inr buffer \<Rightarrow>
            ack_write_loop (index + 1) rest packet packet (recordCount + 1) buffer))
      else (case WriteByte buffer PacketRange of
              Inl err \<Rightarrow> Inl err | Inr buffer \<Rightarrow>
           (case writeUint24 buffer firstPacketInRange of
              Inl err \<Rightarrow> Inl err | Inr buffer \<Rightarrow>
           (case writeUint24 buffer lastPacketInRange of
              Inl err \<Rightarrow> Inl err | Inr buffer \<Rightarrow>
            ack_write_loop (index + 1) rest packet packet (recordCount + 1) buffer))))"

text \<open>The record pending after the loop is written the same way.\<close>

definition ack_write_last :: "uint32 \<Rightarrow> uint32 \<Rightarrow> buffer \<Rightarrow> error + buffer" where
  "ack_write_last firstPacketInRange lastPacketInRange buffer =
     (if firstPacketInRange = lastPacketInRange
      then (case WriteByte buffer PacketSingle of
              Inl err \<Rightarrow> Inl err | Inr buffer \<Rightarrow>
            writeUint24 buffer firstPacketInRange)
      else (case WriteByte buffer PacketRange of
              Inl err \<Rightarrow> Inl err | Inr buffer \<Rightarrow>
           (case writeUint24 buffer firstPacketInRange of
              Inl err \<Rightarrow> Inl err | Inr buffer \<Rightarrow>
            writeUint24 buffer lastPacketInRange)))"

text \<open>
  \<^verbatim>\<open>acknowledgement.write\<close> returns the receiver as it leaves it, and the error or the
  output buffer. \<^verbatim>\<open>sort.Slice\<close> with \<^verbatim>\<open><\<close> on \<^verbatim>\<open>uint32\<close> sorts the slice in place, in
  ascending order; equal values cannot be told apart, so the result is the one sorted
  rearrangement of the slice, which \<open>sort\<close> computes.
\<close>

definition ack_write :: "acknowledgement \<Rightarrow> buffer \<Rightarrow> acknowledgement \<times> (error + buffer)" where
  "ack_write ack b =
     (if length (packets ack) = 0 then (ack, WriteByte b 0)
      else
        (let ack = ack\<lparr>packets := sort (packets ack)\<rparr>
         in (ack,
             (case ack_write_loop 0 (packets ack) 0 0 1 [] of
                Inl err \<Rightarrow> Inl err
              | Inr (firstPacketInRange, lastPacketInRange, recordCount, buffer) \<Rightarrow>
             (case ack_write_last firstPacketInRange lastPacketInRange buffer of
                Inl err \<Rightarrow> Inl err | Inr buffer \<Rightarrow>
             (case binary_Write_int16 b recordCount of
                Inl err \<Rightarrow> Inl err | Inr b \<Rightarrow>
              Write b buffer))))))"

text \<open>
  \<^verbatim>\<open>for pack := start; pack <= end; pack++\<close> on \<^verbatim>\<open>uint32\<close>, appending \<^verbatim>\<open>pack\<close>. With
  \<^verbatim>\<open>end\<close> the largest \<^verbatim>\<open>uint32\<close> the loop would not stop, so it is a partial function:
  \<open>None\<close> is the loop that never returns.
\<close>

partial_function (option) ack_range_loop ::
  "uint32 \<Rightarrow> uint32 \<Rightarrow> uint32 list \<Rightarrow> uint32 list option" where
  "ack_range_loop pack end ps =
     (if pack \<le> end then ack_range_loop (pack + 1) end (ps @ [pack]) else Some ps)"

text \<open>
  The record loop of \<^verbatim>\<open>acknowledgement.read\<close>: \<^verbatim>\<open>for i := int16(0); i < recordCount; i++\<close>,
  compared signed. A tag other than \<^verbatim>\<open>PacketRange\<close> and \<^verbatim>\<open>PacketSingle\<close> falls through
  the \<^verbatim>\<open>switch\<close>. The local \<^verbatim>\<open>count\<close> is written and never read; it is left out.
\<close>

function ack_read_loop ::
  "int16 \<Rightarrow> int16 \<Rightarrow> acknowledgement \<Rightarrow> buffer
   \<Rightarrow> (error + (acknowledgement \<times> buffer)) option" where
  "ack_read_loop i recordCount ack b =
     (if i <s recordCount
      then (case ReadByte b of
              Inl err \<Rightarrow> Some (Inl err)
            | Inr (recordType, b) \<Rightarrow>
                (if recordType = PacketRange
                 then (case readUint24 b of
                         Inl err \<Rightarrow> Some (Inl err)
                       | Inr (start, b) \<Rightarrow>
                      (case readUint24 b of
                         Inl err \<Rightarrow> Some (Inl err)
                       | Inr (end, b) \<Rightarrow>
                      (case ack_range_loop start end (packets ack) of
                         None \<Rightarrow> None
                       | Some ps \<Rightarrow>
                           ack_read_loop (i + 1) recordCount (ack\<lparr>packets := ps\<rparr>) b)))
                 else if recordType = PacketSingle
                 then (case readUint24 b of
                         Inl err \<Rightarrow> Some (Inl err)
                       | Inr (packet, b) \<Rightarrow>
                           ack_read_loop (i + 1) recordCount
                             (ack\<lparr>packets := packets ack @ [packet]\<rparr>) b)
                 else ack_read_loop (i + 1) recordCount ack b))
      else Some (Inr (ack, b)))"
  by pat_completeness auto
termination
proof (relation "measure (\<lambda>(i, recordCount, ack, b). nat (sint recordCount - sint i))")
  have step: "nat (sint recordCount - sint (i + 1)) < nat (sint recordCount - sint i)"
    if lt: "i <s recordCount" for i recordCount :: int16
  proof -
    have a: "sint i < sint recordCount" using lt by (simp add: word_sless_alt)
    have b: "sint recordCount < 2 ^ 15" using sint_lt[of recordCount] by simp
    have c: "- (2 ^ 15) \<le> sint i" using sint_ge[of i] by simp
    have "sint (i + 1) = signed_take_bit 15 (sint i + 1)"
      by (simp add: sint_word_add)
    also have "\<dots> = sint i + 1"
      using a b c by (simp add: signed_take_bit_int_eq_self)
    finally show ?thesis using a by simp
  qed
  show "wf (measure (\<lambda>(i, recordCount, ack, b). nat (sint recordCount - sint i)))"
    by simp
  show "((i + 1, recordCount, ack\<lparr>packets := ps\<rparr>, b3), i, recordCount, ack, b)
        \<in> measure (\<lambda>(i, recordCount, ack, b). nat (sint recordCount - sint i))"
    if "i <s recordCount"
    for i recordCount :: int16 and ack :: acknowledgement and ps and b b3 :: buffer
    using step[OF that] by simp
  show "((i + 1, recordCount, ack\<lparr>packets := packets ack @ [packet]\<rparr>, b2), i, recordCount, ack, b)
        \<in> measure (\<lambda>(i, recordCount, ack, b). nat (sint recordCount - sint i))"
    if "i <s recordCount"
    for i recordCount :: int16 and ack :: acknowledgement and packet and b b2 :: buffer
    using step[OF that] by simp
  show "((i + 1, recordCount, ack, b1), i, recordCount, ack, b)
        \<in> measure (\<lambda>(i, recordCount, ack, b). nat (sint recordCount - sint i))"
    if "i <s recordCount"
    for i recordCount :: int16 and ack :: acknowledgement and b b1 :: buffer
    using step[OF that] by simp
qed

definition ack_read ::
  "acknowledgement \<Rightarrow> buffer \<Rightarrow> (error + (acknowledgement \<times> buffer)) option" where
  "ack_read ack b =
     (case binary_Read_int16 b of
        Inl err \<Rightarrow> Some (Inl err)
      | Inr (recordCount, b) \<Rightarrow> ack_read_loop 0 recordCount ack b)"

declare ack_read_loop.simps [simp del]

text \<open>
  For stating what the encoder writes: a record, its bytes, the record of a run
  \<open>[f, l]\<close>, the records of a pending run followed by the rest of the slice, the
  number of adjacent pairs of a list that are not consecutive, and the numbers from
  \<open>f\<close> to \<open>l\<close>.
\<close>

datatype ack_record = Range uint32 uint32 | Single uint32

fun record_bytes :: "ack_record \<Rightarrow> byte list" where
  "record_bytes (Range f l) = PacketRange # uint24_bytes f @ uint24_bytes l"
| "record_bytes (Single v) = PacketSingle # uint24_bytes v"

definition run_record :: "uint32 \<Rightarrow> uint32 \<Rightarrow> ack_record" where
  "run_record f l = (if f = l then Single f else Range f l)"

fun ack_tail_records :: "uint32 \<Rightarrow> uint32 \<Rightarrow> uint32 list \<Rightarrow> ack_record list" where
  "ack_tail_records f l [] = [run_record f l]"
| "ack_tail_records f l (z # zs) =
     (if z = l + 1 then ack_tail_records f z zs
      else run_record f l # ack_tail_records z z zs)"

fun run_breaks :: "uint32 list \<Rightarrow> nat" where
  "run_breaks (x # y # ys) = (if y = x + 1 then 0 else 1) + run_breaks (y # ys)"
| "run_breaks _ = 0"

definition range_list :: "uint32 \<Rightarrow> uint32 \<Rightarrow> uint32 list" where
  "range_list f l = map word_of_nat [unat f..<Suc (unat l)]"

text \<open>
  Encoding a slice into an empty buffer and decoding the bytes into a fresh
  acknowledgement: the error, or the decoded sequence numbers.
\<close>

definition ack_decode_encode :: "uint32 list \<Rightarrow> (error + uint32 list) option" where
  "ack_decode_encode xs =
     (case snd (ack_write \<lparr>packets = xs\<rparr> []) of
        Inl err \<Rightarrow> Some (Inl err)
      | Inr bs \<Rightarrow>
          (case ack_read \<lparr>packets = []\<rparr> bs of
             None \<Rightarrow> None
           | Some (Inl err) \<Rightarrow> Some (Inl err)
           | Some (Inr (ack, rest)) \<Rightarrow> Some (Inr (packets ack))))"

definition is_uint24 :: "uint32 \<Rightarrow> bool" where
  "is_uint24 v = (v < 2 ^ 24)"

definition even_numbers :: "nat \<Rightarrow> uint32 list" where
  "even_numbers n = map (\<lambda>i. 2 * word_of_nat i) [0..<n]"

section \<open>Sample values\<close>

definition sample_packet :: packet where
  "sample_packet = \<lparr>reliability = reliabilityReliableSequenced, content = [1, 2, 3],
     messageIndex = 5, sequenceIndex = 6, orderIndex = 7, split = True,
     splitCount = 2, splitIndex = 1, splitID = 9\<rparr>"

definition short_packet :: packet where
  "short_packet = zero_packet\<lparr>content := [1, 2, 3]\<rparr>"

section \<open>Fixed-width integers on the wire\<close>

lemma Uint16_PutUint16: "Uint16 (PutUint16 v) = v"
  unfolding Uint16_def PutUint16_def
  by (simp, rule bit_word_eqI) (auto simp: bit_simps)

lemma Uint32_PutUint32: "Uint32 (PutUint32 v) = v"
  unfolding Uint32_def PutUint32_def
proof (simp, rule bit_word_eqI)
  fix n assume "n < LENGTH(32)"
  then consider "n < 8" | "8 \<le> n" "n < 16" | "16 \<le> n" "n < 24" | "24 \<le> n" "n < 32"
    by fastforce
  then show "bit (ucast (ucast v :: byte) OR push_bit 8 (ucast (ucast (drop_bit 8 v) :: byte))
          OR push_bit 16 (ucast (ucast (drop_bit 16 v) :: byte))
          OR push_bit 24 (ucast (ucast (drop_bit 24 v) :: byte)) :: uint32) n = bit v n"
    by cases (auto simp: bit_simps)
qed

lemma uint24_high_bits:
  fixes v :: uint32
  assumes "v < 2 ^ 24" "24 \<le> n"
  shows "\<not> bit v n"
proof -
  have "v AND mask 24 = v" using assms(1) by (rule less_mask_eq)
  then have "bit v n = bit (v AND mask 24) n" by simp
  then show ?thesis using assms(2) by (simp add: bit_simps)
qed

lemma uint24_recombine:
  fixes v :: uint32
  assumes "v < 2 ^ 24"
  shows "push_bit 16 (ucast (ucast (drop_bit 16 v) :: byte))
         OR push_bit 8 (ucast (ucast (drop_bit 8 v) :: byte)) OR ucast (ucast v :: byte) = v"
proof (rule bit_word_eqI)
  fix n assume "n < LENGTH(32)"
  then consider "n < 8" | "8 \<le> n" "n < 16" | "16 \<le> n" "n < 24" | "24 \<le> n" "n < 32"
    by fastforce
  then show "bit (push_bit 16 (ucast (ucast (drop_bit 16 v) :: byte))
         OR push_bit 8 (ucast (ucast (drop_bit 8 v) :: byte))
         OR ucast (ucast v :: byte) :: uint32) n = bit v n"
    using uint24_high_bits[OF assms] by cases (auto simp: bit_simps)
qed

lemma byte_lt8_cases:
  fixes r :: byte
  assumes "r < 8"
  shows "r = 0 \<or> r = 1 \<or> r = 2 \<or> r = 3 \<or> r = 4 \<or> r = 5 \<or> r = 6 \<or> r = 7"
proof -
  have "unat r < 8" using assms by (simp add: word_less_nat_alt)
  then have "unat r = 0 \<or> unat r = 1 \<or> unat r = 2 \<or> unat r = 3
             \<or> unat r = 4 \<or> unat r = 5 \<or> unat r = 6 \<or> unat r = 7"
    by arith
  then have "word_of_nat (unat r) \<in> {0, 1, 2, 3, 4, 5, 6, 7 :: byte}"
    by (elim disjE) simp_all
  then show ?thesis by simp
qed

lemma length_field:
  assumes "1 \<le> n" "n \<le> 8191"
  shows "drop_bit 3 (push_bit 3 (word_of_nat n :: uint16)) = word_of_nat n"
    and "(word_of_nat n :: uint16) \<noteq> 0"
    and "unat (word_of_nat n :: uint16) = n"
proof -
  show u: "unat (word_of_nat n :: uint16) = n" using assms by (simp add: unat_of_nat)
  show "(word_of_nat n :: uint16) \<noteq> 0" using u assms by auto
  have lt: "(word_of_nat n :: uint16) < 2 ^ 13" using u assms by (simp add: word_less_nat_alt)
  have hi: "\<not> bit (word_of_nat n :: uint16) k" if "13 \<le> k" for k
  proof -
    from lt have "(word_of_nat n :: uint16) AND mask 13 = word_of_nat n" by (rule less_mask_eq)
    then have "bit (word_of_nat n :: uint16) k = bit ((word_of_nat n :: uint16) AND mask 13) k"
      by simp
    then show ?thesis using that by (simp add: bit_simps)
  qed
  show "drop_bit 3 (push_bit 3 (word_of_nat n :: uint16)) = word_of_nat n"
  proof (rule bit_word_eqI)
    fix k assume "k < LENGTH(16)"
    show "bit (drop_bit 3 (push_bit 3 (word_of_nat n :: uint16))) k
          = bit (word_of_nat n :: uint16) k"
    proof (cases "k < 13")
      case True
      then show ?thesis by (simp add: bit_drop_bit_eq bit_push_bit_iff)
    next
      case False
      then have "\<not> bit (word_of_nat n :: uint16) k" using hi by simp
      moreover have "\<not> bit (drop_bit 3 (push_bit 3 (word_of_nat n :: uint16))) k"
        using False by (simp add: bit_simps)
      ultimately show ?thesis by simp
    qed
  qed
qed

lemma writeUint24_bytes: "writeUint24 b v = Inr (b @ uint24_bytes v)"
  by (simp add: writeUint24_def Write_def uint24_bytes_def)

lemma readUint24_bytes: "v < 2 ^ 24 \<Longrightarrow> readUint24 (uint24_bytes v @ rest) = Inr (v, rest)"
  by (simp add: readUint24_def uint24_bytes_def uint24_recombine)

lemma binary_Read_uint16_Put: "binary_Read_uint16 (PutUint16 v @ rest) = Inr (v, rest)"
proof -
  have "ReadFull (PutUint16 v @ rest) 2 = Inr (PutUint16 v, rest)"
    by (simp add: ReadFull_def PutUint16_def)
  then show ?thesis by (simp add: binary_Read_uint16_def Uint16_PutUint16)
qed

lemma binary_Read_int16_Put: "binary_Read_int16 (PutUint16 v @ rest) = Inr (v, rest)"
proof -
  have "ReadFull (PutUint16 v @ rest) 2 = Inr (PutUint16 v, rest)"
    by (simp add: ReadFull_def PutUint16_def)
  then show ?thesis by (simp add: binary_Read_int16_def Uint16_PutUint16)
qed

lemma binary_Read_uint32_Put: "binary_Read_uint32 (PutUint32 v @ rest) = Inr (v, rest)"
proof -
  have "ReadFull (PutUint32 v @ rest) 4 = Inr (PutUint32 v, rest)"
    by (simp add: ReadFull_def PutUint32_def)
  then show ?thesis by (simp add: binary_Read_uint32_def Uint32_PutUint32)
qed

section \<open>The packet codec\<close>

lemma packet_write_layout: "packet_write p b = Inr (b @ packet_layout p)"
  by (simp add: packet_write_def packet_layout_def header_byte_def Let_def wrap_def
      WriteByte_def Write_def binary_Write_uint16_def binary_Write_uint32_def
      writeUint24_bytes)

lemma Read_exact: "c \<noteq> [] \<Longrightarrow> Read c (replicate (length c) 0) = Inr (length c, c, [])"
  by (simp add: Read_def)

lemma header_byte_decode:
  assumes "reliability p < 8"
  shows "drop_bit 5 (header_byte p AND 224) = reliability p"
    and "(header_byte p AND splitFlag \<noteq> 0) = split p"
  using byte_lt8_cases[OF assms] by (auto simp: header_byte_def)

lemma classifier_cong:
  assumes "reliability q = reliability p"
  shows "reliable q = reliable p" "sequenced q = sequenced p"
    "sequencedOrOrdered q = sequencedOrOrdered p"
  using assms by (simp_all add: reliable_def sequenced_def sequencedOrOrdered_def)

lemma read_indices_layout:
  assumes "messageIndex p < 2 ^ 24" "sequenceIndex p < 2 ^ 24" "orderIndex p < 2 ^ 24"
    and "reliability q = reliability p"
  shows "read_indices q
           ((if reliable p then uint24_bytes (messageIndex p) else [])
            @ (if sequenced p then uint24_bytes (sequenceIndex p) else [])
            @ (if sequencedOrOrdered p then uint24_bytes (orderIndex p) @ [0] else [])
            @ rest)
         = Inr (q\<lparr>messageIndex := (if reliable p then messageIndex p else messageIndex q),
                  sequenceIndex := (if sequenced p then sequenceIndex p else sequenceIndex q),
                  orderIndex := (if sequencedOrOrdered p then orderIndex p else orderIndex q)\<rparr>, rest)"
proof -
  have c0: "reliable q = reliable p"
    using assms(4) by (rule classifier_cong)
  have c1: "sequenced (q\<lparr>messageIndex := v\<rparr>) = sequenced p"
           "sequenced q = sequenced p" for v
    by (rule classifier_cong, simp add: assms(4))+
  have c2: "sequencedOrOrdered (q\<lparr>messageIndex := v, sequenceIndex := w\<rparr>) = sequencedOrOrdered p"
     "sequencedOrOrdered (q\<lparr>messageIndex := v\<rparr>) = sequencedOrOrdered p"
     "sequencedOrOrdered (q\<lparr>sequenceIndex := w\<rparr>) = sequencedOrOrdered p"
     "sequencedOrOrdered q = sequencedOrOrdered p" for v w
    by (rule classifier_cong, simp add: assms(4))+
  show ?thesis
    using assms(1-3)
    by (cases "reliable p"; cases "sequenced p"; cases "sequencedOrOrdered p")
       (simp_all add: read_indices_def c0 c1 c2 wrap_def readUint24_bytes Next_def)
qed

lemma read_split_layout:
  assumes "split q = split p"
  shows "read_split q
           ((if split p then PutUint32 (splitCount p) @ PutUint16 (splitID p) @ PutUint32 (splitIndex p) else [])
            @ rest)
         = Inr (if split p then q\<lparr>splitCount := splitCount p, splitID := splitID p, splitIndex := splitIndex p\<rparr> else q, rest)"
  using assms
  by (simp add: read_split_def wrap_def binary_Read_uint32_Put binary_Read_uint16_Put)

lemma Read_length: "Read b p = Inr (n, dst, b') \<Longrightarrow> length dst = length p"
  by (auto simp: Read_def Let_def split: if_splits)

section \<open>The acknowledgement codec\<close>

lemma ack_write_last_bytes:
  "ack_write_last f l buf = Inr (buf @ record_bytes (run_record f l))"
  by (simp add: ack_write_last_def run_record_def WriteByte_def writeUint24_bytes)

lemma length_ack_tail_records:
  "length (ack_tail_records f l zs) = Suc (run_breaks (l # zs))"
  by (induction zs arbitrary: f l) simp_all

lemma ack_write_loop_records:
  assumes "0 < index"
  shows "\<exists>f' l' buf'. ack_write_loop index zs f l rc buf
            = Inr (f', l', rc + word_of_nat (run_breaks (l # zs)), buf')
          \<and> buf' @ record_bytes (run_record f' l')
            = buf @ concat (map record_bytes (ack_tail_records f l zs))"
  using assms
proof (induction zs arbitrary: index f l rc buf)
  case Nil
  then show ?case by simp
next
  case (Cons z zs)
  show ?case
  proof (cases "z = l + 1")
    case True
    with Cons.IH[of "index + 1" f z rc buf] Cons.prems show ?thesis by simp
  next
    case False
    from Cons.IH[of "index + 1" z z "rc + 1" "buf @ record_bytes (run_record f l)"]
    obtain f' l' buf' where
      1: "ack_write_loop (index + 1) zs z z (rc + 1) (buf @ record_bytes (run_record f l))
            = Inr (f', l', rc + 1 + word_of_nat (run_breaks (z # zs)), buf')"
      and 2: "buf' @ record_bytes (run_record f' l')
            = (buf @ record_bytes (run_record f l)) @ concat (map record_bytes (ack_tail_records z z zs))"
      by auto
    have "ack_write_loop index (z # zs) f l rc buf
          = ack_write_loop (index + 1) zs z z (rc + 1) (buf @ record_bytes (run_record f l))"
      using False Cons.prems
      by (simp add: run_record_def WriteByte_def writeUint24_bytes)
    with 1 2 False show ?thesis by simp
  qed
qed

lemma ack_write_nonempty:
  assumes "packets ack \<noteq> []"
  shows "ack_write ack b =
     (ack\<lparr>packets := sort (packets ack)\<rparr>,
      Inr (b @ PutUint16 (1 + word_of_nat (run_breaks (sort (packets ack))))
             @ concat (map record_bytes
                 (ack_tail_records (hd (sort (packets ack))) (hd (sort (packets ack)))
                    (tl (sort (packets ack)))))))"
proof -
  obtain x zs where s: "sort (packets ack) = x # zs"
    using assms by (cases "sort (packets ack)") (auto dest: arg_cong[where f=length])
  obtain f' l' buf' where
    1: "ack_write_loop (Suc 0) zs x x 1 [] = Inr (f', l', 1 + word_of_nat (run_breaks (x # zs)), buf')"
    and 2: "buf' @ record_bytes (run_record f' l')
            = concat (map record_bytes (ack_tail_records x x zs))"
    using ack_write_loop_records[of "Suc 0" zs x x 1 "[]"] by auto
  show ?thesis
    using assms 1 2
    by (simp add: ack_write_def Let_def s ack_write_last_bytes binary_Write_int16_def Write_def)
qed

lemma sint_of_nat16:
  assumes "k < 32768"
  shows "sint (word_of_nat k :: int16) = int k"
proof -
  have "sint (word_of_nat k :: int16) = signed_take_bit 15 (int k)"
    by (simp add: signed_of_nat)
  also have "\<dots> = int k"
    using assms by (simp add: signed_take_bit_int_eq_self)
  finally show ?thesis .
qed

lemma ack_range_loop_gt: "l < f \<Longrightarrow> ack_range_loop f l ps = Some ps"
  by (subst ack_range_loop.simps) (auto dest: leD)

lemma unat_succ24:
  fixes f :: uint32
  assumes "f < 2 ^ 24"
  shows "unat (f + 1) = Suc (unat f)"
proof -
  have "unat f < 2 ^ 24" using assms by (simp add: word_less_nat_alt)
  then have "unat f + unat (1 :: uint32) < 2 ^ LENGTH(32)" by simp
  then have "unat (f + 1) = unat f + unat (1 :: uint32)" by (simp only: unat_add_lem[THEN iffD1])
  then show ?thesis by simp
qed

lemma range_list_single: "range_list f f = [f]"
  by (simp add: range_list_def)

lemma range_list_Cons:
  assumes "f < l" "l < 2 ^ 24"
  shows "range_list f l = f # range_list (f + 1) l"
proof -
  have f24: "f < 2 ^ 24" using assms by simp
  have "unat f < Suc (unat l)" using assms(1) by (simp add: word_less_nat_alt)
  then have "[unat f..<Suc (unat l)] = unat f # [Suc (unat f)..<Suc (unat l)]"
    by (rule upt_conv_Cons)
  then show ?thesis
    by (simp add: range_list_def unat_succ24[OF f24])
qed

lemma range_list_snoc:
  assumes "f \<le> l" "l < 2 ^ 24"
  shows "range_list f (l + 1) = range_list f l @ [l + 1]"
proof -
  have "unat f \<le> Suc (unat l)" using assms(1) by (simp add: word_le_nat_alt)
  then show ?thesis
    by (simp add: range_list_def unat_succ24[OF assms(2)])
qed

lemma ack_range_loop_le:
  assumes "f \<le> l" "l < 2 ^ 24"
  shows "ack_range_loop f l ps = Some (ps @ range_list f l)"
  using assms
proof (induction "unat l - unat f" arbitrary: f ps)
  case 0
  then have "f = l" by (simp add: word_le_nat_alt word_unat_eq_iff)
  moreover have "l < l + 1" using \<open>l < 2 ^ 24\<close> unat_succ24[of l] by (simp add: word_less_nat_alt)
  ultimately show ?case
    by (subst ack_range_loop.simps) (simp add: ack_range_loop_gt range_list_single)
next
  case (Suc n)
  then have lt: "f < l" by (simp add: word_less_nat_alt)
  then have f24: "f < 2 ^ 24" using Suc.prems by simp
  have le: "f + 1 \<le> l" using lt by (rule inc_le)
  have "n = unat l - unat (f + 1)" using Suc(2) by (simp add: unat_succ24[OF f24])
  from Suc(1)[OF this le \<open>l < 2 ^ 24\<close>]
  have "ack_range_loop (f + 1) l (ps @ [f]) = Some ((ps @ [f]) @ range_list (f + 1) l)" .
  then show ?case
    using Suc.prems(1) by (subst ack_range_loop.simps) (simp add: range_list_Cons[OF lt \<open>l < 2 ^ 24\<close>])
qed

lemma ack_read_loop_record:
  assumes "i <s rc" "f \<le> l" "l < 2 ^ 24"
  shows "ack_read_loop i rc ack (record_bytes (run_record f l) @ rest)
         = ack_read_loop (i + 1) rc (ack\<lparr>packets := packets ack @ range_list f l\<rparr>) rest"
proof -
  have f24: "f < 2 ^ 24" using assms by simp
  show ?thesis
  proof (cases "f = l")
    case True
    then show ?thesis
      using assms(1) readUint24_bytes[OF assms(3), of rest]
      by (subst ack_read_loop.simps) (simp add: run_record_def ReadByte_def range_list_single)
  next
    case False
    have "readUint24 (uint24_bytes f @ uint24_bytes l @ rest) = Inr (f, uint24_bytes l @ rest)"
      using f24 by (rule readUint24_bytes)
    then show ?thesis
      using False assms(1) readUint24_bytes[OF assms(3), of rest] ack_range_loop_le[OF assms(2,3)]
      by (subst ack_read_loop.simps) (simp add: run_record_def ReadByte_def)
  qed
qed

lemma ack_read_loop_tail:
  assumes "f \<le> l" "\<forall>z \<in> set (l # zs). z < 2 ^ 24"
    and "k + length (ack_tail_records f l zs) \<le> nat (sint rc)"
  shows "ack_read_loop (word_of_nat k) rc ack
           (concat (map record_bytes (ack_tail_records f l zs)) @ rest)
         = ack_read_loop (word_of_nat (k + length (ack_tail_records f l zs))) rc
             (ack\<lparr>packets := packets ack @ range_list f l @ zs\<rparr>) rest"
  using assms
proof (induction zs arbitrary: f l k ack)
  case Nil
  have rcb: "sint rc < 2 ^ 15" using sint_lt[of rc] by simp
  then have k: "k < 32768" "int k < sint rc" using Nil.prems(3) by auto
  then have "word_of_nat k <s rc" by (simp add: word_sless_alt sint_of_nat16)
  then show ?case
    using Nil.prems ack_read_loop_record[of "word_of_nat k" rc f l ack rest]
    by (simp add: add.commute)
next
  case (Cons z zs)
  have l24: "l < 2 ^ 24" and z24: "z < 2 ^ 24" using Cons.prems(2) by auto
  show ?case
  proof (cases "z = l + 1")
    case True
    have "f \<le> z" using True Cons.prems(1) l24 unat_succ24[OF l24]
      by (simp add: word_le_nat_alt)
    moreover have "\<forall>x \<in> set (z # zs). x < 2 ^ 24" using Cons.prems(2) by auto
    moreover have "k + length (ack_tail_records f z zs) \<le> nat (sint rc)"
      using Cons.prems(3) True by simp
    ultimately have "ack_read_loop (word_of_nat k) rc ack
           (concat (map record_bytes (ack_tail_records f z zs)) @ rest)
         = ack_read_loop (word_of_nat (k + length (ack_tail_records f z zs))) rc
             (ack\<lparr>packets := packets ack @ range_list f z @ zs\<rparr>) rest"
      by (rule Cons.IH)
    then show ?thesis
      using True range_list_snoc[OF Cons.prems(1) l24] by simp
  next
    case False
    have rcb: "sint rc < 2 ^ 15" using sint_lt[of rc] by simp
    then have k: "k < 32768" "int k < sint rc" using Cons.prems(3) False by auto
    then have lt: "word_of_nat k <s rc" by (simp add: word_sless_alt sint_of_nat16)
    have step: "ack_read_loop (word_of_nat k) rc ack
            (record_bytes (run_record f l) @ concat (map record_bytes (ack_tail_records z z zs)) @ rest)
          = ack_read_loop (word_of_nat k + 1) rc (ack\<lparr>packets := packets ack @ range_list f l\<rparr>)
              (concat (map record_bytes (ack_tail_records z z zs)) @ rest)"
      using lt Cons.prems(1) l24 by (rule ack_read_loop_record)
    let ?ack = "ack\<lparr>packets := packets ack @ range_list f l\<rparr>"
    have "z \<le> z" by simp
    moreover have "\<forall>x \<in> set (z # zs). x < 2 ^ 24" using Cons.prems(2) by auto
    moreover have "Suc k + length (ack_tail_records z z zs) \<le> nat (sint rc)"
      using Cons.prems(3) False by simp
    ultimately have "ack_read_loop (word_of_nat (Suc k)) rc ?ack
           (concat (map record_bytes (ack_tail_records z z zs)) @ rest)
         = ack_read_loop (word_of_nat (Suc k + length (ack_tail_records z z zs))) rc
             (?ack\<lparr>packets := packets ?ack @ range_list z z @ zs\<rparr>) rest"
      by (rule Cons.IH)
    with step False show ?thesis
      by (simp add: range_list_single add.commute)
  qed
qed

lemma ack_read_loop_done: "\<not> i <s rc \<Longrightarrow> ack_read_loop i rc ack b = Some (Inr (ack, b))"
  by (subst ack_read_loop.simps) simp

lemma ack_decode_encode_sorted:
  assumes "xs \<noteq> []" "\<forall>x\<in>set xs. x < 2 ^ 24" "run_breaks (sort xs) < 32767"
  shows "ack_decode_encode xs = Some (Inr (sort xs))"
proof -
  obtain x zs where s: "sort xs = x # zs"
    using assms(1) by (cases "sort xs") (auto dest: arg_cong[where f=length])
  let ?n = "length (ack_tail_records x x zs)"
  let ?c = "1 + word_of_nat (run_breaks (sort xs)) :: int16"
  let ?recs = "concat (map record_bytes (ack_tail_records x x zs))"
  have n: "?n = Suc (run_breaks (sort xs))" by (simp add: length_ack_tail_records s)
  then have n_le: "?n < 32768" using assms(3) by simp
  have c: "?c = word_of_nat ?n" by (simp add: n)
  have sc: "sint ?c = int ?n" unfolding c using n_le by (rule sint_of_nat16)
  have w: "snd (ack_write \<lparr>packets = xs\<rparr> []) = Inr (PutUint16 ?c @ ?recs)"
    using assms(1) by (simp add: ack_write_nonempty s)
  have all24: "\<forall>z \<in> set (x # zs). z < 2 ^ 24"
    using assms(2) s by (metis set_sort)
  have "ack_read_loop (word_of_nat 0) ?c \<lparr>packets = []\<rparr> (?recs @ [])
        = ack_read_loop (word_of_nat (0 + ?n)) ?c
            (\<lparr>packets = []\<rparr>\<lparr>packets := packets \<lparr>packets = []\<rparr> @ range_list x x @ zs\<rparr>) []"
    by (rule ack_read_loop_tail) (use all24 sc in simp_all)
  also have "\<dots> = Some (Inr (\<lparr>packets = x # zs\<rparr>, []))"
    by (subst ack_read_loop_done) (simp_all add: c[symmetric] range_list_single word_sless_alt)
  finally have "ack_read \<lparr>packets = []\<rparr> (PutUint16 ?c @ ?recs) = Some (Inr (\<lparr>packets = x # zs\<rparr>, []))"
    by (simp add: ack_read_def binary_Read_int16_Put)
  with w show ?thesis by (simp add: ack_decode_encode_def s)
qed

lemma even_numbers_unat:
  assumes "i < 2 ^ 23"
  shows "unat (2 * word_of_nat i :: uint32) = 2 * i"
proof -
  have "unat (word_of_nat (2 * i) :: uint32) = (2 * i) mod 2 ^ LENGTH(32)"
    by (simp only: unat_of_nat)
  also have "\<dots> = 2 * i" using assms by simp
  finally show ?thesis by simp
qed

lemma run_breaks_even_from:
  "run_breaks (map (\<lambda>i. 2 * word_of_nat i :: uint32) [k..<k + Suc m]) = m"
proof (induction m arbitrary: k)
  case 0
  then show ?case by simp
next
  case (Suc m)
  have a: "[k..<k + Suc (Suc m)] = k # [Suc k..<Suc k + Suc m]"
    by (simp add: upt_conv_Cons)
  have b: "[Suc k..<Suc k + Suc m] = Suc k # [Suc (Suc k)..<Suc k + Suc m]"
    by (simp add: upt_conv_Cons)
  have ne: "(2 * word_of_nat (Suc k) :: uint32) \<noteq> 2 * word_of_nat k + 1"
    by simp
  have "run_breaks (map (\<lambda>i. 2 * word_of_nat i :: uint32) [k..<k + Suc (Suc m)])
        = 1 + run_breaks (map (\<lambda>i. 2 * word_of_nat i :: uint32) [Suc k..<Suc k + Suc m])"
    unfolding a unfolding b using ne by simp
  then show ?case using Suc.IH[of "Suc k"] by simp
qed

lemma run_breaks_even: "run_breaks (even_numbers (Suc m)) = m"
  using run_breaks_even_from[of 0 m] by (simp add: even_numbers_def)

lemma sorted_even_numbers:
  assumes "n \<le> 2 ^ 23"
  shows "sorted (even_numbers n)"
proof -
  have "sorted_wrt (\<lambda>i j. (2 * word_of_nat i :: uint32) \<le> 2 * word_of_nat j) [0..<n]"
  proof (rule sorted_wrt_mono_rel[OF _ sorted_wrt_upt])
    fix i j assume "i \<in> set [0..<n]" "j \<in> set [0..<n]" "i < j"
    then have "i < 2 ^ 23" "j < 2 ^ 23" using assms by auto
    then show "(2 * word_of_nat i :: uint32) \<le> 2 * word_of_nat j"
      using \<open>i < j\<close> by (simp add: word_le_nat_alt even_numbers_unat)
  qed
  then show ?thesis by (simp add: even_numbers_def sorted_map)
qed

lemma distinct_even_numbers:
  assumes "n \<le> 2 ^ 23"
  shows "distinct (even_numbers n)"
proof -
  have "inj_on (\<lambda>i. 2 * word_of_nat i :: uint32) (set [0..<n])"
  proof (rule inj_onI)
    fix i j assume ij: "i \<in> set [0..<n]" "j \<in> set [0..<n]"
      and eq: "(2 * word_of_nat i :: uint32) = 2 * word_of_nat j"
    then have "i < 2 ^ 23" "j < 2 ^ 23" using assms by auto
    then have u: "unat (2 * word_of_nat i :: uint32) = 2 * i"
      "unat (2 * word_of_nat j :: uint32) = 2 * j"
      by (simp_all only: even_numbers_unat)
    from eq have "unat (2 * word_of_nat i :: uint32) = unat (2 * word_of_nat j :: uint32)"
      by (rule arg_cong)
    then have "2 * i = 2 * j" by (simp only: u)
    then show "i = j" by simp
  qed
  then show ?thesis by (simp add: even_numbers_def distinct_map)
qed

lemma uint24_even_numbers:
  assumes "n \<le> 2 ^ 23"
  shows "list_all is_uint24 (even_numbers n)"
proof -
  have "is_uint24 (2 * word_of_nat i)" if "i < n" for i
  proof -
    have "i < 2 ^ 23" using that assms by simp
    then show ?thesis
      by (simp add: is_uint24_def word_less_nat_alt even_numbers_unat)
  qed
  then show ?thesis by (simp add: even_numbers_def list_all_iff)
qed

lemma sort_unique:
  assumes "distinct xs" "set xs = set ys" "sorted ys" "distinct ys"
  shows "sort xs = ys"
  by (rule sorted_distinct_set_unique) (use assms in simp_all)

section \<open>The reliability classifiers\<close>

text \<open>
  C7. The three classifiers are true exactly on the listed tags (and false on every other
  byte), and \<^verbatim>\<open>sequencedOrOrdered\<close> is \<^verbatim>\<open>sequenced\<close> or one of the two ordered tags.
\<close>

theorem classifiers_exact:
  "reliable p =
     (reliability p \<in> {reliabilityReliable, reliabilityReliableOrdered,
        reliabilityReliableSequenced, reliabilityReliableWithAck,
        reliabilityReliableOrderedWithAck})
   \<and> sequenced p =
     (reliability p \<in> {reliabilityUnreliableSequenced, reliabilityReliableSequenced})
   \<and> sequencedOrOrdered p =
     (reliability p \<in> {reliabilityUnreliableSequenced, reliabilityReliableOrdered,
        reliabilityReliableSequenced, reliabilityReliableOrderedWithAck})
   \<and> sequencedOrOrdered p =
     (sequenced p
      \<or> reliability p \<in> {reliabilityReliableOrdered, reliabilityReliableOrderedWithAck})"
  by (auto simp: reliable_def sequenced_def sequencedOrOrdered_def)

section \<open>Packet round trip\<close>

text \<open>
  C1. For a tag in 0..7, 24-bit message, sequence and order indices, any split flag and
  split fields, and a content of 1 to 8191 bytes, \<^verbatim>\<open>packet.write\<close> succeeds, and
  \<^verbatim>\<open>packet.read\<close> of the bytes it wrote, into a fresh packet, succeeds, consumes them
  all and returns a packet that agrees with the original on the tag, the split flag, the
  content and every field the tag and the flag put on the wire.
\<close>

theorem packet_roundtrip:
  assumes "reliability p < 8"
    and "messageIndex p < 2 ^ 24" "sequenceIndex p < 2 ^ 24" "orderIndex p < 2 ^ 24"
    and "1 \<le> length (content p)" "length (content p) \<le> 8191"
  shows "\<exists>bs q. packet_write p [] = Inr bs \<and> packet_read zero_packet bs = Inr (q, [])
           \<and> relevant_fields_equal p q"
proof -
  let ?qa = "zero_packet\<lparr>split := split p, reliability := reliability p\<rparr>"
  let ?qb = "?qa\<lparr>messageIndex := (if reliable p then messageIndex p else messageIndex ?qa),
                  sequenceIndex := (if sequenced p then sequenceIndex p else sequenceIndex ?qa),
                  orderIndex := (if sequencedOrOrdered p then orderIndex p else orderIndex ?qa)\<rparr>"
  let ?qc = "if split p then ?qb\<lparr>splitCount := splitCount p, splitID := splitID p, splitIndex := splitIndex p\<rparr> else ?qb"
  let ?q = "?qc\<lparr>content := content p\<rparr>"
  have w: "packet_write p [] = Inr (packet_layout p)"
    by (simp add: packet_write_layout)
  have ne: "content p \<noteq> []" using assms(5) by auto
  have ri: "read_indices ?qa
           ((if reliable p then uint24_bytes (messageIndex p) else [])
            @ (if sequenced p then uint24_bytes (sequenceIndex p) else [])
            @ (if sequencedOrOrdered p then uint24_bytes (orderIndex p) @ [0] else [])
            @ rest) = Inr (?qb, rest)" for rest
    by (rule read_indices_layout) (use assms in simp_all)
  have rs: "read_split ?qb
           ((if split p then PutUint32 (splitCount p) @ PutUint16 (splitID p) @ PutUint32 (splitIndex p) else [])
            @ rest) = Inr (?qc, rest)" for rest
    by (rule read_split_layout) simp
  have r: "packet_read zero_packet (packet_layout p) = Inr (?q, [])"
    unfolding packet_read_def packet_layout_def
    apply (simp only: wrap_def ReadByte_def list.case sum.case prod.case header_byte_decode[OF assms(1)] binary_Read_uint16_Put
        length_field[OF assms(5,6)] Let_def if_False)
    apply (simp only: ri sum.case prod.case)
    apply (simp only: rs sum.case prod.case)
    apply (simp only: Read_exact[OF ne] sum.case prod.case)
    done
  have "relevant_fields_equal p ?q"
    by (simp add: relevant_fields_equal_def)
  with w r show ?thesis by blast
qed

theorem packet_roundtrip_witness:
  "reliability sample_packet < 8
   \<and> messageIndex sample_packet < 2 ^ 24 \<and> sequenceIndex sample_packet < 2 ^ 24
   \<and> orderIndex sample_packet < 2 ^ 24
   \<and> 1 \<le> length (content sample_packet) \<and> length (content sample_packet) \<le> 8191
   \<and> (\<exists>bs q. packet_write sample_packet [] = Inr bs
         \<and> packet_read zero_packet bs = Inr (q, []) \<and> relevant_fields_equal sample_packet q)"
  using packet_roundtrip [of sample_packet] by (simp add: sample_packet_def)

section \<open>Zero-length content\<close>

text \<open>
  C5. When the 16-bit length field, shifted right by 3, is 0, \<^verbatim>\<open>packet.read\<close> fails with
  the invalid-length error, whatever the header byte and the receiver; and whenever
  \<^verbatim>\<open>packet.read\<close> succeeds, the content it returns is not empty.
\<close>

theorem packet_read_rejects_zero_length:
  "(drop_bit 3 (Uint16 [l1, l2]) = 0 \<longrightarrow>
      packet_read p (h # l1 # l2 # rest) = Inl (Errorf0 ''invalid packet length: cannot be 0''))
   \<and> (packet_read p' b = Inr (q, b') \<longrightarrow> content q \<noteq> [])"
proof (intro conjI impI)
  assume z: "drop_bit 3 (Uint16 [l1, l2]) = 0"
  have "binary_Read_uint16 (l1 # l2 # rest) = Inr (Uint16 [l1, l2], rest)"
    by (simp add: binary_Read_uint16_def ReadFull_def)
  then show "packet_read p (h # l1 # l2 # rest) = Inl (Errorf0 ''invalid packet length: cannot be 0'')"
    using z by (simp add: packet_read_def wrap_def ReadByte_def Let_def)
next
  assume r: "packet_read p' b = Inr (q, b')"
  then obtain len :: uint16 and n dst b1 q1 where len: "len \<noteq> 0"
    and rd: "Read b1 (replicate (unat len) 0) = Inr (n, dst, b')"
    and q: "q = q1\<lparr>content := dst\<rparr>"
    by (auto simp: packet_read_def wrap_def Let_def split: sum.splits if_splits prod.splits)
  from rd have "length dst = unat len" by (auto dest: Read_length)
  moreover have "unat len \<noteq> 0" using len by (simp add: unat_eq_0)
  ultimately show "content q \<noteq> []" using q by auto
qed

theorem packet_read_rejects_zero_length_witness:
  "drop_bit 3 (Uint16 [0, 7]) = (0 :: uint16)
   \<and> packet_read zero_packet [0x60, 0, 7, 1, 2, 3] = Inl (Errorf0 ''invalid packet length: cannot be 0'')
   \<and> packet_read zero_packet [0, 0, 8, 0xAA] = Inr (zero_packet\<lparr>content := [0xAA]\<rparr>, [])
   \<and> content (zero_packet\<lparr>content := [0xAA]\<rparr>) \<noteq> []"
proof -
  have a: "drop_bit 3 (Uint16 [0, 7]) = (0 :: uint16)"
    by (simp add: Uint16_def)
  have b: "packet_read zero_packet [0, 0, 8, 0xAA] = Inr (zero_packet\<lparr>content := [0xAA]\<rparr>, [])"
    by (simp add: packet_read_def wrap_def ReadByte_def binary_Read_uint16_def ReadFull_def
        Uint16_def read_indices_def read_split_def reliable_def sequenced_def
        sequencedOrOrdered_def Read_def zero_packet_def Let_def)
  show ?thesis
    using a b packet_read_rejects_zero_length
      [of 0 7 zero_packet "0x60" "[1, 2, 3]" zero_packet "[0, 0, 8, 0xAA]"
          "zero_packet\<lparr>content := [0xAA]\<rparr>" "[]"]
    by simp
qed

section \<open>Content cut short\<close>

text \<open>
  C3. The packet with tag 0 and content 1, 2, 3 is written as six bytes. Of its first four
  bytes, where two content bytes are missing, \<^verbatim>\<open>packet.read\<close> makes a packet of
  content 1, 0, 0 and returns no error: \<^verbatim>\<open>b.Read\<close> reports a short read by its count,
  which the source discards.
\<close>

theorem packet_read_short_content:
  "packet_write short_packet [] = Inr [0, 0, 0x18, 1, 2, 3]
   \<and> packet_read zero_packet [0, 0, 0x18, 1] = Inr (zero_packet\<lparr>content := [1, 0, 0]\<rparr>, [])"
proof -
  have w: "packet_write short_packet [] = Inr [0, 0, 0x18, 1, 2, 3]"
    by (simp add: packet_write_layout packet_layout_def header_byte_def short_packet_def
        zero_packet_def PutUint16_def reliable_def sequenced_def sequencedOrOrdered_def)
  have z: "replicate 3 (0 :: byte) = [0, 0, 0]"
    by (simp add: numeral_3_eq_3)
  have r: "packet_read zero_packet [0, 0, 0x18, 1] = Inr (zero_packet\<lparr>content := [1, 0, 0]\<rparr>, [])"
    by (simp add: packet_read_def wrap_def ReadByte_def binary_Read_uint16_def ReadFull_def
        Uint16_def read_indices_def read_split_def reliable_def sequenced_def
        sequencedOrOrdered_def Read_def zero_packet_def Let_def z)
  from w r show ?thesis by simp
qed

section \<open>Acknowledgement round trip\<close>

text \<open>
  C2, as amended. For every non-empty list of distinct 24-bit sequence numbers whose
  sorted order has fewer than 32767 breaks between consecutive numbers, so that its runs
  are at most 32767 records, \<^verbatim>\<open>acknowledgement.write\<close> into an empty buffer succeeds,
  and \<^verbatim>\<open>acknowledgement.read\<close> of the bytes into a fresh acknowledgement succeeds and
  returns exactly these numbers, each once.
\<close>

theorem ack_roundtrip:
  assumes "xs \<noteq> []" "distinct xs" "\<forall>x\<in>set xs. x < 2 ^ 24" "run_breaks (sort xs) < 32767"
  shows "\<exists>ys. ack_decode_encode xs = Some (Inr ys) \<and> set ys = set xs \<and> distinct ys"
  using ack_decode_encode_sorted[OF assms(1,3,4)] assms(2) by simp

theorem ack_roundtrip_witness:
  "[12, 5, 7, 13, 6, 10 :: uint32] \<noteq> [] \<and> distinct [12, 5, 7, 13, 6, 10 :: uint32]
   \<and> list_all is_uint24 [12, 5, 7, 13, 6, 10]
   \<and> run_breaks (sort [12, 5, 7, 13, 6, 10]) < 32767
   \<and> (\<exists>ys. ack_decode_encode [12, 5, 7, 13, 6, 10] = Some (Inr ys)
          \<and> set ys = set [12, 5, 7, 13, 6, 10] \<and> distinct ys)"
  using ack_roundtrip [of "[12, 5, 7, 13, 6, 10]"] by (simp add: is_uint24_def)

text \<open>
  C2 as stated fails where the \<^verbatim>\<open>int16\<close> record count wraps: the 32768 even numbers
  0, 2, ..., 65534 are distinct 24-bit numbers and make 32768 single records; the count
  is written as \<open>0x8000\<close>, which the decoder reads as \<open>-32768\<close>, so it reads no record
  and returns the empty list.
\<close>

theorem ack_roundtrip_counterexample:
  "even_numbers 32768 \<noteq> [] \<and> distinct (even_numbers 32768)
   \<and> list_all is_uint24 (even_numbers 32768)
   \<and> ack_decode_encode (even_numbers 32768) = Some (Inr [])
   \<and> set [] \<noteq> set (even_numbers 32768)"
proof -
  let ?xs = "even_numbers 32768"
  have len: "length ?xs = 32768" by (simp add: even_numbers_def)
  then have ne: "?xs \<noteq> []" by auto
  have srt: "sort ?xs = ?xs" by (rule sorted_sort_id, rule sorted_even_numbers) simp
  have "run_breaks (even_numbers (Suc 32767)) = 32767" by (rule run_breaks_even)
  then have rb: "run_breaks ?xs = 32767" by simp
  have cnt: "(1 + word_of_nat 32767 :: int16) = 32768" by simp
  have "ack_write \<lparr>packets = ?xs\<rparr> [] =
     (\<lparr>packets = ?xs\<rparr>\<lparr>packets := sort (packets \<lparr>packets = ?xs\<rparr>)\<rparr>,
      Inr ([] @ PutUint16 (1 + word_of_nat (run_breaks (sort (packets \<lparr>packets = ?xs\<rparr>))))
             @ concat (map record_bytes
                 (ack_tail_records (hd (sort (packets \<lparr>packets = ?xs\<rparr>))) (hd (sort (packets \<lparr>packets = ?xs\<rparr>)))
                    (tl (sort (packets \<lparr>packets = ?xs\<rparr>)))))))"
    by (rule ack_write_nonempty) (simp add: ne)
  then have w: "snd (ack_write \<lparr>packets = ?xs\<rparr> []) =
      Inr (PutUint16 32768 @ concat (map record_bytes (ack_tail_records (hd ?xs) (hd ?xs) (tl ?xs))))"
    by (simp add: srt rb cnt)
  have nl: "\<not> (0 :: int16) <s 32768" by (simp add: word_sless_alt)
  have r: "ack_read \<lparr>packets = []\<rparr> (PutUint16 32768 @ rest) = Some (Inr (\<lparr>packets = []\<rparr>, rest))" for rest
    by (simp add: ack_read_def binary_Read_int16_Put ack_read_loop_done[OF nl])
  have d: "ack_decode_encode ?xs = Some (Inr [])"
    by (simp add: ack_decode_encode_def w r)
  have "distinct ?xs" by (rule distinct_even_numbers) simp
  moreover have "list_all is_uint24 ?xs" by (rule uint24_even_numbers) simp
  ultimately show ?thesis using ne d by simp
qed

section \<open>The empty acknowledgement\<close>

text \<open>
  C4. \<^verbatim>\<open>acknowledgement.write\<close> of the empty set writes the one byte 0. Of that one
  byte, \<^verbatim>\<open>acknowledgement.read\<close> returns \<^verbatim>\<open>io.ErrUnexpectedEOF\<close>: it reads a 16-bit
  record count, and one byte is not enough.
\<close>

theorem ack_empty_set:
  "ack_write \<lparr>packets = []\<rparr> [] = (\<lparr>packets = []\<rparr>, Inr [0])
   \<and> ack_read \<lparr>packets = []\<rparr> [0] = Some (Inl ErrUnexpectedEOF)"
  by (simp add: ack_write_def WriteByte_def ack_read_def binary_Read_int16_def ReadFull_def)

section \<open>Ranges and singles\<close>

text \<open>
  C6. In whatever order the slice holds them, the numbers 5, 6, 7, 10, 12, 13 are written
  as the record count 3 followed by the records Range(5,7), Single(10), Range(12,13), and
  the numbers 100, 101 as the record count 1 followed by the one record Range(100,101).
\<close>

theorem ack_write_ranges:
  assumes "distinct xs" "distinct ys"
    and "set xs = {5, 6, 7, 10, 12, 13}" "set ys = {100, 101}"
  shows "snd (ack_write \<lparr>packets = xs\<rparr> b)
           = Inr (b @ PutUint16 3 @ concat (map record_bytes [Range 5 7, Single 10, Range 12 13]))
       \<and> snd (ack_write \<lparr>packets = ys\<rparr> b)
           = Inr (b @ PutUint16 1 @ concat (map record_bytes [Range 100 101]))"
proof -
  have sx: "sort xs = [5, 6, 7, 10, 12, 13]"
    by (rule sort_unique) (use assms in simp_all)
  have sy: "sort ys = [100, 101]"
    by (rule sort_unique) (use assms in simp_all)
  have nx: "packets \<lparr>packets = xs\<rparr> \<noteq> []" using assms(3) by auto
  have ny: "packets \<lparr>packets = ys\<rparr> \<noteq> []" using assms(4) by auto
  have "snd (ack_write \<lparr>packets = xs\<rparr> b)
           = Inr (b @ PutUint16 3 @ concat (map record_bytes [Range 5 7, Single 10, Range 12 13]))"
    by (simp add: ack_write_nonempty[OF nx] sx run_record_def)
  moreover have "snd (ack_write \<lparr>packets = ys\<rparr> b)
           = Inr (b @ PutUint16 1 @ concat (map record_bytes [Range 100 101]))"
    by (simp add: ack_write_nonempty[OF ny] sy run_record_def)
  ultimately show ?thesis by simp
qed

theorem ack_write_ranges_witness:
  "distinct [12, 5, 7, 13, 6, 10 :: uint32] \<and> distinct [101, 100 :: uint32]
   \<and> set [12, 5, 7, 13, 6, 10 :: uint32] = {5, 6, 7, 10, 12, 13}
   \<and> set [101, 100 :: uint32] = {100, 101}
   \<and> snd (ack_write \<lparr>packets = [12, 5, 7, 13, 6, 10]\<rparr> [])
       = Inr ([] @ PutUint16 3 @ concat (map record_bytes [Range 5 7, Single 10, Range 12 13]))
   \<and> snd (ack_write \<lparr>packets = [101, 100]\<rparr> [])
       = Inr ([] @ PutUint16 1 @ concat (map record_bytes [Range 100 101]))"
proof -
  have a: "distinct [12, 5, 7, 13, 6, 10 :: uint32]" by simp
  have b: "distinct [101, 100 :: uint32]" by simp
  have c: "set [12, 5, 7, 13, 6, 10 :: uint32] = {5, 6, 7, 10, 12, 13}" by auto
  have d: "set [101, 100 :: uint32] = {100, 101}" by auto
  show ?thesis
    using a b c d ack_write_ranges [OF a b c d, of "[]"] by blast
qed

section \<open>Unknown record tags\<close>

text \<open>
  C8. A record whose tag byte is neither 0 nor 1 is skipped by
  \<^verbatim>\<open>acknowledgement.read\<close>: the iteration ends with the tag byte alone consumed and the
  acknowledgement unchanged, and the loop goes on with the next value of \<open>i\<close>, so the
  record counts against the record count. With a record count of 1 the read then returns
  no error, the acknowledgement as it was and the bytes after the tag.
\<close>

theorem ack_read_unknown_tag:
  assumes "recordType \<noteq> PacketRange" "recordType \<noteq> PacketSingle"
  shows "(i <s recordCount \<longrightarrow>
            ack_read_loop i recordCount ack (recordType # b)
            = ack_read_loop (i + 1) recordCount ack b)
       \<and> ack_read ack (PutUint16 1 @ recordType # b) = Some (Inr (ack, b))"
proof -
  have step: "ack_read_loop i recordCount ack (recordType # b)
            = ack_read_loop (i + 1) recordCount ack b" if "i <s recordCount" for i recordCount
    using that assms by (subst ack_read_loop.simps) (simp add: ReadByte_def)
  have a: "(0 :: int16) <s 1" by (simp add: word_sless_alt)
  have b: "\<not> (1 :: int16) <s 1" by (simp add: word_sless_alt)
  have "ack_read ack (PutUint16 1 @ recordType # b) = Some (Inr (ack, b))"
    by (simp add: ack_read_def binary_Read_int16_Put step[OF a] ack_read_loop_done[OF b])
  with step show ?thesis by simp
qed

theorem ack_read_unknown_tag_witness:
  "(2 :: byte) \<noteq> PacketRange \<and> (2 :: byte) \<noteq> PacketSingle \<and> (0 :: int16) <s 2
   \<and> ack_read_loop 0 2 \<lparr>packets = [9]\<rparr> [2, 1, 0, 0, 7]
       = ack_read_loop (0 + 1) 2 \<lparr>packets = [9]\<rparr> [1, 0, 0, 7]
   \<and> ack_read \<lparr>packets = [9]\<rparr> (PutUint16 1 @ [2, 1, 0, 0, 7])
       = Some (Inr (\<lparr>packets = [9]\<rparr>, [1, 0, 0, 7]))"
proof -
  have a: "(2 :: byte) \<noteq> PacketRange" "(2 :: byte) \<noteq> PacketSingle" by simp_all
  have b: "(0 :: int16) <s 2" by (simp add: word_sless_alt)
  show ?thesis
    using a b ack_read_unknown_tag [OF a, of 0 2 "\<lparr>packets = [9]\<rparr>" "[1, 0, 0, 7]"] by simp
qed

section \<open>Inverted ranges\<close>

text \<open>
  C10. For a Range record whose first value, as decoded, is greater than its last value,
  \<^verbatim>\<open>acknowledgement.read\<close> appends nothing and returns no error for the record: the
  loop goes on with the next record, the acknowledgement unchanged and the buffer after
  the two values.
\<close>

theorem ack_read_inverted_range:
  assumes "i <s recordCount"
    and "readUint24 b = Inr (start, b1)" "readUint24 b1 = Inr (end, b2)"
    and "end < start"
  shows "ack_read_loop i recordCount ack (PacketRange # b)
         = ack_read_loop (i + 1) recordCount ack b2"
  using assms
  by (subst ack_read_loop.simps) (simp add: ReadByte_def ack_range_loop_gt)

theorem ack_read_inverted_range_witness:
  "(0 :: int16) <s 1
   \<and> readUint24 [0, 0, 7, 0, 0, 5, 1, 0, 0, 3] = Inr (7, [0, 0, 5, 1, 0, 0, 3])
   \<and> readUint24 [0, 0, 5, 1, 0, 0, 3] = Inr (5, [1, 0, 0, 3])
   \<and> (5 :: uint32) < 7
   \<and> ack_read_loop 0 1 \<lparr>packets = [9]\<rparr> (PacketRange # [0, 0, 7, 0, 0, 5, 1, 0, 0, 3])
       = ack_read_loop (0 + 1) 1 \<lparr>packets = [9]\<rparr> [1, 0, 0, 3]
   \<and> ack_read_loop (0 + 1) 1 \<lparr>packets = [9]\<rparr> [1, 0, 0, 3]
       = Some (Inr (\<lparr>packets = [9]\<rparr>, [1, 0, 0, 3]))"
proof -
  have a: "(0 :: int16) <s 1" by (simp add: word_sless_alt)
  have b: "readUint24 [0, 0, 7, 0, 0, 5, 1, 0, 0, 3] = Inr (7, [0, 0, 5, 1, 0, 0, 3])"
    by (simp add: readUint24_def)
  have c: "readUint24 [0, 0, 5, 1, 0, 0, 3] = Inr (5, [1, 0, 0, 3])"
    by (simp add: readUint24_def)
  have d: "(5 :: uint32) < 7" by simp
  have e: "\<not> (0 + 1 :: int16) <s 1" by (simp add: word_sless_alt)
  show ?thesis
    using a b c d ack_read_inverted_range [OF a b c d, of "\<lparr>packets = [9]\<rparr>"]
      ack_read_loop_done [OF e, of "\<lparr>packets = [9]\<rparr>" "[1, 0, 0, 3]"]
    by simp
qed

section \<open>Sorting in place\<close>

text \<open>
  C9. On a non-empty slice, \<^verbatim>\<open>acknowledgement.write\<close> leaves the acknowledgement with
  its slice sorted in ascending order, the same numbers with the same multiplicities,
  and nothing else changed; the output buffer is the buffer given with bytes appended.
\<close>

theorem ack_write_sorts_in_place:
  assumes "packets ack \<noteq> []"
  shows "fst (ack_write ack b) = ack\<lparr>packets := sort (packets ack)\<rparr>
       \<and> sorted (packets (fst (ack_write ack b)))
       \<and> mset (packets (fst (ack_write ack b))) = mset (packets ack)
       \<and> (\<exists>bs. snd (ack_write ack b) = Inr (b @ bs))"
  by (simp add: ack_write_nonempty[OF assms])

theorem ack_write_sorts_in_place_witness:
  "packets \<lparr>packets = [12, 5, 7, 13, 6, 10]\<rparr> \<noteq> []
   \<and> fst (ack_write \<lparr>packets = [12, 5, 7, 13, 6, 10]\<rparr> [0xC0])
       = \<lparr>packets = [5, 6, 7, 10, 12, 13]\<rparr>
   \<and> (\<exists>bs. snd (ack_write \<lparr>packets = [12, 5, 7, 13, 6, 10]\<rparr> [0xC0]) = Inr ([0xC0] @ bs))"
proof -
  have a: "packets \<lparr>packets = [12, 5, 7, 13, 6, 10]\<rparr> \<noteq> []" by simp
  show ?thesis
    using a ack_write_sorts_in_place [OF a, of "[0xC0]"] by simp
qed

end
